theory Spec2Isabelle
  imports Main "HOL-Library.FSet" "HOL-Library.Sublist"
begin

section \<open>Python string primitives used by \<open>scrape_advanced.py\<close>\<close>

text \<open>
  Python strings are modelled as \<open>string\<close>; a \<open>char\<close> stands for one code point
  below 256, so \<open>length\<close> is Python's \<open>len\<close> on such text. Python integers are
  \<open>int\<close>. A raised exception is a value of \<open>py_error\<close>.
\<close>

datatype py_error = ValueError | IndexError | RuntimeError

abbreviation LF :: char where "LF \<equiv> CHR 0x0A"
abbreviation CR :: char where "CR \<equiv> CHR 0x0D"

definition py_isspace :: "char \<Rightarrow> bool" where
  \<comment> \<open>\<open>str.isspace\<close> on one code point below 256\<close>
  "py_isspace c = (let k = (of_char c :: nat)
     in (9 \<le> k \<and> k \<le> 13) \<or> (28 \<le> k \<and> k \<le> 32) \<or> k = 133 \<or> k = 160)"

definition py_islinebreak :: "char \<Rightarrow> bool" where
  \<comment> \<open>the code points below 256 at which \<open>str.splitlines\<close> breaks a line\<close>
  "py_islinebreak c = (let k = (of_char c :: nat)
     in (10 \<le> k \<and> k \<le> 13) \<or> (28 \<le> k \<and> k \<le> 30) \<or> k = 133)"

definition py_lower :: "char \<Rightarrow> char" where
  \<comment> \<open>\<open>str.lower\<close> on one code point below 256\<close>
  "py_lower c = (let k = (of_char c :: nat)
     in if (65 \<le> k \<and> k \<le> 90) \<or> (192 \<le> k \<and> k \<le> 214) \<or> (216 \<le> k \<and> k \<le> 222)
        then char_of (k + 32) else c)"

definition strip :: "string \<Rightarrow> string" where
  \<comment> \<open>\<open>s.strip()\<close>: leading and trailing whitespace removed\<close>
  "strip s = dropWhile py_isspace (rev (dropWhile py_isspace (rev s)))"

definition rstrip_chr :: "char \<Rightarrow> string \<Rightarrow> string" where
  \<comment> \<open>\<open>s.rstrip(c)\<close> for a one-character argument\<close>
  "rstrip_chr c s = rev (dropWhile (\<lambda>x. x = c) (rev s))"

definition split_first :: "char \<Rightarrow> string \<Rightarrow> string" where
  \<comment> \<open>\<open>s.split(c)[0]\<close>: the text before the first occurrence of \<open>c\<close>\<close>
  "split_first c s = takeWhile (\<lambda>x. x \<noteq> c) s"

fun py_in :: "string \<Rightarrow> string \<Rightarrow> bool" where
  \<comment> \<open>\<open>p in s\<close>: \<open>p\<close> occurs in \<open>s\<close> as a contiguous substring\<close>
  "py_in p [] = (p = [])"
| "py_in p (c # cs) = (prefix p (c # cs) \<or> py_in p cs)"

fun splitlines_acc :: "string \<Rightarrow> string \<Rightarrow> string list" where
  \<comment> \<open>\<open>line\<close> is the text of the current line read so far; \<open>\r\n\<close> is one break\<close>
  "splitlines_acc line [] = (if line = [] then [] else [line])"
| "splitlines_acc line [c] = (if py_islinebreak c then [line] else [line @ [c]])"
| "splitlines_acc line (c # d # cs) =
     (if c = CR \<and> d = LF then line # splitlines_acc [] cs
      else if py_islinebreak c then line # splitlines_acc [] (d # cs)
      else splitlines_acc (line @ [c]) (d # cs))"

definition splitlines :: "string \<Rightarrow> string list" where
  \<comment> \<open>\<open>s.splitlines()\<close>\<close>
  "splitlines s = splitlines_acc [] s"

fun join_newline :: "string list \<Rightarrow> string" where
  \<comment> \<open>\<open>"\n".join(lines)\<close>\<close>
  "join_newline [] = []"
| "join_newline [l] = l"
| "join_newline (l # m # ls) = l @ LF # join_newline (m # ls)"

definition py_index :: "nat \<Rightarrow> int \<Rightarrow> nat" where
  \<comment> \<open>how slicing and \<open>rfind\<close> read a bound on a string of length \<open>n\<close>:
      a negative bound counts from the end, and the result is clamped to \<open>0..n\<close>\<close>
  "py_index n i = (if i < 0 then nat (max (i + int n) 0) else nat (min i (int n)))"

definition py_slice :: "string \<Rightarrow> int \<Rightarrow> int \<Rightarrow> string" where
  \<comment> \<open>\<open>s[a:b]\<close>\<close>
  "py_slice s a b =
     (let a' = py_index (length s) a; b' = py_index (length s) b
      in take (b' - a') (drop a' s))"

fun rfind_range :: "char \<Rightarrow> string \<Rightarrow> nat \<Rightarrow> nat \<Rightarrow> int" where
  \<comment> \<open>the highest index \<open>j\<close> with \<open>a \<le> j < b\<close> and \<open>s[j] = c\<close>, or \<open>-1\<close>\<close>
  "rfind_range c s a 0 = - 1"
| "rfind_range c s a (Suc j) =
     (if j < a then - 1 else if s ! j = c then int j else rfind_range c s a j)"

definition py_rfind :: "char \<Rightarrow> string \<Rightarrow> int \<Rightarrow> int \<Rightarrow> int" where
  \<comment> \<open>\<open>s.rfind(c, a, b)\<close> for a one-character needle\<close>
  "py_rfind c s a b = rfind_range c s (py_index (length s) a) (py_index (length s) b)"

section \<open>The fragment of regular expressions the module uses\<close>

text \<open>
  Patterns are compiled with \<open>re.IGNORECASE\<close> and written in lower case, so a literal
  matches a character whose lower-case form it is. \<open>Eos\<close> is \<open>$\<close>: the end of the
  string, or the position before a final newline. \<open>rx_rests r s\<close> lists what is left of
  \<open>s\<close> after each way \<open>r\<close> can match a prefix of it.
\<close>

datatype rx = Lit char | Cat "rx list" | Alt "rx list" | Opt rx | Eos

fun rx_rests :: "rx \<Rightarrow> string \<Rightarrow> string list" where
  "rx_rests (Lit p) [] = []"
| "rx_rests (Lit p) (c # cs) = (if py_lower c = p then [cs] else [])"
| "rx_rests (Cat []) s = [s]"
| "rx_rests (Cat (r # rs)) s = concat (map (rx_rests (Cat rs)) (rx_rests r s))"
| "rx_rests (Alt []) s = []"
| "rx_rests (Alt (r # rs)) s = rx_rests r s @ rx_rests (Alt rs) s"
| "rx_rests (Opt r) s = rx_rests r s @ [s]"
| "rx_rests Eos s = (if s = [] \<or> s = [LF] then [s] else [])"

fun re_search :: "rx \<Rightarrow> string \<Rightarrow> bool" where
  \<comment> \<open>\<open>bool(re.search(r, s, re.IGNORECASE))\<close>: a match starting at some position\<close>
  "re_search r [] = (rx_rests r [] \<noteq> [])"
| "re_search r (c # cs) = (rx_rests r (c # cs) \<noteq> [] \<or> re_search r cs)"

definition rx_word :: "string \<Rightarrow> rx" where
  "rx_word w = Cat (map Lit w)"

fun newline_run :: "nat \<Rightarrow> string \<Rightarrow> string" where
  \<comment> \<open>\<open>re.sub(r'\n{3,}', '\n\n', s)\<close>, with \<open>k\<close> the newlines of the run being read:
      a maximal run of three or more newlines becomes two, a shorter one stays\<close>
  "newline_run k [] = (if 3 \<le> k then [LF, LF] else replicate k LF)"
| "newline_run k (c # cs) =
     (if c = LF then newline_run (Suc k) cs
      else (if 3 \<le> k then [LF, LF] else replicate k LF) @ c # newline_run 0 cs)"

definition re_sub_newlines :: "string \<Rightarrow> string" where
  "re_sub_newlines s = newline_run 0 s"

section \<open>What the module takes from its libraries\<close>

text \<open>
  The browser session (Selenium), the markup parser (BeautifulSoup) and \<open>urllib.parse\<close>
  are outside the repository; the model takes them as the fields of a record. A fetch and
  the URL functions may raise. Delays (\<open>time.sleep\<close>) are not modelled.
\<close>

record web =
  get_driver :: "py_error + unit"
    \<comment> \<open>\<open>get_driver(headless=True)\<close>: the session, or the exception it raises\<close>
  page_source :: "string \<Rightarrow> py_error + string"
    \<comment> \<open>navigating to a URL and reading the rendered markup\<close>
  soup_body :: "string \<Rightarrow> string"
    \<comment> \<open>\<open>str(soup.body or soup)\<close> of the parsed markup\<close>
  soup_text :: "string \<Rightarrow> string"
    \<comment> \<open>\<open>get_text(separator="\n")\<close> once the noise tags are decomposed\<close>
  soup_hrefs :: "string \<Rightarrow> string list"
    \<comment> \<open>the \<open>href\<close> of every \<open>a\<close> element that has one, in document order\<close>
  urljoin :: "string \<Rightarrow> string \<Rightarrow> py_error + string"
  urlparse_netloc :: "string \<Rightarrow> py_error + string"
  urlparse_path :: "string \<Rightarrow> py_error + string"

section \<open>Content extractor\<close>

definition extract_body_content :: "web \<Rightarrow> string \<Rightarrow> string" where
  "extract_body_content W html_content = soup_body W html_content"

definition clean_lines :: "string \<Rightarrow> string list" where
  \<comment> \<open>lines 87 and 88: the stripped lines that are kept\<close>
  "clean_lines text =
     (let lines = map strip (splitlines text)
      in filter (\<lambda>l. l \<noteq> [] \<and> length l > 3) lines)"

definition clean_body_content :: "web \<Rightarrow> string \<Rightarrow> string" where
  "clean_body_content W body_content =
     (let text = soup_text W body_content;
          lines = clean_lines text;
          cleaned = join_newline lines;
          cleaned = re_sub_newlines cleaned
      in cleaned)"

definition plain_line :: "string \<Rightarrow> bool" where
  \<comment> \<open>a line as \<open>splitlines\<close> reads it back: not empty and without a line break\<close>
  "plain_line l = (l \<noteq> [] \<and> (\<forall>c\<in>set l. \<not> py_islinebreak c))"

section \<open>URL filter\<close>

definition extension_alternatives :: rx where
  \<comment> \<open>the group \<open>(pdf|jpg|jpeg|png|gif|svg|ico|webp|mp4|mp3|zip|exe|dmg|docx?|xls|pptx?|css|js)\<close>\<close>
  "extension_alternatives =
      Alt [rx_word ''pdf'', rx_word ''jpg'', rx_word ''jpeg'', rx_word ''png'',
           rx_word ''gif'', rx_word ''svg'', rx_word ''ico'', rx_word ''webp'',
           rx_word ''mp4'', rx_word ''mp3'', rx_word ''zip'', rx_word ''exe'',
           rx_word ''dmg'', Cat [rx_word ''doc'', Opt (Lit (CHR ''x''))], rx_word ''xls'',
           Cat [rx_word ''ppt'', Opt (Lit (CHR ''x''))], rx_word ''css'', rx_word ''js'']"

definition skip_extensions :: rx where
  \<comment> \<open>\<open>\.(pdf|jpg|jpeg|png|gif|svg|ico|webp|mp4|mp3|zip|exe|dmg|docx?|xls|pptx?|css|js)($|\?)\<close>\<close>
  "skip_extensions = Cat [Lit (CHR ''.''), extension_alternatives, Alt [Eos, Lit (CHR ''?'')]]"

definition skip_paths :: "string list" where
  "skip_paths = [''login'', ''signup'', ''register'', ''cart'', ''checkout'', ''admin'']"

definition is_valid_url :: "web \<Rightarrow> string \<Rightarrow> py_error + bool" where
  "is_valid_url W url =
     (if url = [] then Inr False
      else if \<not> prefix ''http'' url then Inr False
      else if re_search skip_extensions url then Inr False
      else case urlparse_path W url of
             Inl e \<Rightarrow> Inl e
           | Inr path \<Rightarrow>
               if list_ex (\<lambda>p. py_in p (map py_lower path)) skip_paths then Inr False
               else Inr True)"

text \<open>
  The extension rule in the words of the specification, for comparison with the pattern:
  the deny-listed extensions, and the part of a URL that ends where its path ends (before
  the query string and the fragment).
\<close>

definition deny_listed_extensions :: "string list" where
  "deny_listed_extensions =
     [''pdf'', ''jpg'', ''jpeg'', ''png'', ''gif'', ''svg'', ''ico'', ''webp'', ''mp4'', ''mp3'',
      ''zip'', ''exe'', ''dmg'', ''doc'', ''docx'', ''xls'', ''ppt'', ''pptx'', ''css'', ''js'']"

abbreviation dot_extension_then_end :: "string \<Rightarrow> bool" where
  \<comment> \<open>a dot and a deny-listed extension, then \<open>?\<close>, the end, or a final newline\<close>
  "dot_extension_then_end url \<equiv>
     (\<exists>pre e rest. url = pre @ CHR ''.'' # e @ rest
        \<and> map py_lower e \<in> set deny_listed_extensions
        \<and> (rest = [] \<or> rest = [LF] \<or> (\<exists>r. rest = CHR ''?'' # r)))"

definition up_to_path_end :: "string \<Rightarrow> string" where
  "up_to_path_end url = takeWhile (\<lambda>c. c \<noteq> CHR ''?'' \<and> c \<noteq> CHR ''#'') url"

definition path_ends_in_extension :: "string \<Rightarrow> bool" where
  "path_ends_in_extension url =
     list_ex (\<lambda>e. suffix (CHR ''.'' # e) (map py_lower (up_to_path_end url)))
       deny_listed_extensions"

section \<open>Page fetcher\<close>

definition scrape_page :: "web \<Rightarrow> string \<Rightarrow> string" where
  \<comment> \<open>with the crawl's own driver: any exception of the fetch gives the empty string\<close>
  "scrape_page W url = (case page_source W url of Inl e \<Rightarrow> [] | Inr html \<Rightarrow> html)"

section \<open>Crawl scheduler: \<open>scrape_website_recursive\<close>\<close>

definition normalize_link :: "string \<Rightarrow> string" where
  \<comment> \<open>line 205: \<open>full.split("#")[0].rstrip("/")\<close>\<close>
  "normalize_link full = rstrip_chr (CHR ''/'') (split_first (CHR ''#'') full)"

record crawl_state =
  queue :: "string list"
  visited :: "string fset"
  results :: "string \<rightharpoonup> string"

fun enqueue_links ::
  "web \<Rightarrow> bool \<Rightarrow> string \<Rightarrow> string fset \<Rightarrow> string \<Rightarrow> string list \<Rightarrow> string list
     \<Rightarrow> py_error option \<times> string list" where
  \<comment> \<open>the \<open>for a in soup.find_all("a", href=True)\<close> loop, lines 203 to 209: the queue it
      leaves, and the exception that ended it early, if any\<close>
  "enqueue_links W same_domain domain visited_set current [] frontier = (None, frontier)"
| "enqueue_links W same_domain domain visited_set current (href # hrefs) frontier =
     (case urljoin W current href of
        Inl e \<Rightarrow> (Some e, frontier)
      | Inr full \<Rightarrow>
         (let full = normalize_link full in
          if full |\<notin>| visited_set then
            (case is_valid_url W full of
               Inl e \<Rightarrow> (Some e, frontier)
             | Inr valid \<Rightarrow>
                if valid then
                  (if same_domain then
                     (case urlparse_netloc W full of
                        Inl e \<Rightarrow> (Some e, frontier)
                      | Inr netloc \<Rightarrow>
                         if netloc = domain
                         then enqueue_links W same_domain domain visited_set current hrefs
                                (frontier @ [full])
                         else enqueue_links W same_domain domain visited_set current hrefs frontier)
                   else enqueue_links W same_domain domain visited_set current hrefs frontier)
                else enqueue_links W same_domain domain visited_set current hrefs frontier)
          else enqueue_links W same_domain domain visited_set current hrefs frontier))"

definition process_page ::
  "web \<Rightarrow> bool \<Rightarrow> string \<Rightarrow> string \<Rightarrow> crawl_state \<Rightarrow> py_error option \<times> crawl_state" where
  \<comment> \<open>lines 186 to 209\<close>
  "process_page W same_domain domain current st =
     (let html = scrape_page W current in
      if html = [] \<or> length html < 500
      then (None, st\<lparr>visited := finsert current (visited st)\<rparr>)
      else
        (let body = extract_body_content W html;
             cleaned = clean_body_content W body;
             st = (if cleaned \<noteq> [] \<and> length cleaned > 200
                   then st\<lparr>results := (results st)(current \<mapsto> cleaned)\<rparr> else st);
             st = st\<lparr>visited := finsert current (visited st)\<rparr>;
             (err, queue') = enqueue_links W same_domain domain (visited st) current
                               (soup_hrefs W html) (queue st)
         in (err, st\<lparr>queue := queue'\<rparr>)))"

definition crawl_step ::
  "web \<Rightarrow> bool \<Rightarrow> string \<Rightarrow> crawl_state \<Rightarrow> py_error option \<times> crawl_state" where
  \<comment> \<open>one iteration of the \<open>while\<close> loop, lines 176 to 211: the state it leaves, and the
      exception that leaves the loop, if any\<close>
  "crawl_step W same_domain domain st =
     (case queue st of
        [] \<Rightarrow> (Some IndexError, st)
      | current # rest \<Rightarrow>
         (let st = st\<lparr>queue := rest\<rparr> in
          if current |\<in>| visited st then (None, st)
          else if same_domain then
            (case urlparse_netloc W current of
               Inl e \<Rightarrow> (Some e, st)
             | Inr netloc \<Rightarrow>
                if netloc \<noteq> domain then (None, st)
                else process_page W same_domain domain current st)
          else process_page W same_domain domain current st))"

function crawl_loop :: "web \<Rightarrow> int \<Rightarrow> bool \<Rightarrow> string \<Rightarrow> crawl_state \<Rightarrow> crawl_state" where
  \<comment> \<open>\<open>while queue and len(visited) < max_pages\<close>; an exception ends the loop\<close>
  "crawl_loop W max_pages same_domain domain st =
     (if queue st \<noteq> [] \<and> int (fcard (visited st)) < max_pages then
        (case crawl_step W same_domain domain st of
           (Some e, st') \<Rightarrow> st'
         | (None, st') \<Rightarrow> crawl_loop W max_pages same_domain domain st')
      else st)"
  by pat_completeness auto
termination
  apply (relation "measures
    [\<lambda>(W, max_pages, same_domain, domain, st). nat (max_pages - int (fcard (visited st))),
     \<lambda>(W, max_pages, same_domain, domain, st). length (queue st)]")
  subgoal by simp
  subgoal premises prems for W max_pages same_domain domain st x st'
  proof -
    note guard = prems(1) and step = prems(2)
    from guard obtain current rest where q: "queue st = current # rest"
      by (cases "queue st") auto
    let ?st = "st\<lparr>queue := rest\<rparr>"
    have pp: "visited (snd (process_page W same_domain domain current ?st))
        = finsert current (visited st)"
      by (simp add: process_page_def Let_def split: prod.splits)
    have effect: "(visited st' = visited st \<and> queue st' = rest) \<or>
       (current |\<notin>| visited st \<and> visited st' = finsert current (visited st))"
    proof (cases "current |\<in>| visited st")
      case True
      with q step show ?thesis by (auto simp: crawl_step_def Let_def)
    next
      case False
      show ?thesis
      proof (cases "crawl_step W same_domain domain st
                    = process_page W same_domain domain current ?st")
        case True
        with step have "snd (process_page W same_domain domain current ?st) = st'"
          by (metis snd_conv)
        with pp False show ?thesis by simp
      next
        case ne: False
        with q step False have "st' = ?st"
          by (simp add: crawl_step_def Let_def split: if_splits sum.splits)
        then show ?thesis by simp
      qed
    qed
    then show ?thesis
      using guard q by (auto simp: fcard_finsert_disjoint)
  qed
  done

declare crawl_loop.simps [simp del]

definition crawl_init :: "string \<Rightarrow> crawl_state" where
  \<comment> \<open>lines 162 to 164\<close>
  "crawl_init start_url = \<lparr>queue = [start_url], visited = {||}, results = Map.empty\<rparr>"

definition scrape_website_recursive ::
  "web \<Rightarrow> string \<Rightarrow> int \<Rightarrow> bool \<Rightarrow> py_error + (string \<rightharpoonup> string)" where
  "scrape_website_recursive W start_url max_pages same_domain =
     (let start_url = rstrip_chr (CHR ''/'') start_url in
      case urlparse_netloc W start_url of
        Inl e \<Rightarrow> Inl e
      | Inr domain \<Rightarrow>
         (case get_driver W of
            Inl e \<Rightarrow> Inr Map.empty
          | Inr driver \<Rightarrow>
             Inr (results (crawl_loop W max_pages same_domain domain (crawl_init start_url)))))"

section \<open>The chunker: \<open>split_dom_content\<close>\<close>

definition window_end :: "string \<Rightarrow> int \<Rightarrow> int \<Rightarrow> int" where
  \<comment> \<open>lines 249 to 254: the end of the window that starts at \<open>start\<close>\<close>
  "window_end dom_content max_length start =
     (let n = int (length dom_content);
          end' = min (start + max_length) n
      in if end' < n then
           (let newline_pos = py_rfind LF dom_content start end'
            in if newline_pos > start + (max_length div 2) then newline_pos else end')
         else end')"

partial_function (option) split_loop ::
  "string \<Rightarrow> int \<Rightarrow> int \<Rightarrow> int \<Rightarrow> string list \<Rightarrow> string list option" where
  \<comment> \<open>the \<open>while start < n\<close> loop, lines 248 to 261; \<open>None\<close> when it runs forever\<close>
  "split_loop dom_content max_length overlap start chunks =
     (let n = int (length dom_content) in
      if start < n then
        (let end' = window_end dom_content max_length start;
             chunks' = chunks @ [py_slice dom_content start end']
         in if end' < n
            then split_loop dom_content max_length overlap
                   (max (end' - overlap) (start + max_length div 2)) chunks'
            else Some chunks')
      else Some chunks)"

declare split_loop.simps [code]

definition split_dom_content :: "string \<Rightarrow> int \<Rightarrow> int \<Rightarrow> string list option" where
  "split_dom_content dom_content max_length overlap =
     (if dom_content = [] then Some []
      else let dom_content = strip dom_content
           in if int (length dom_content) \<le> max_length then Some [dom_content]
              else split_loop dom_content max_length overlap 0 [])"

section \<open>A small site for concrete runs\<close>

text \<open>
  Every URL of the site serves the same page: two links to \<open>http://a.b/p\<close>, 201
  characters of text, and a script element, which is no part of the extracted text.
  Links are absolute, so \<open>urljoin\<close> returns them unchanged;
  the two \<open>urlparse\<close> fields read a URL of the form \<open>http://host/path?query#fragment\<close>.
\<close>

definition demo_page :: string where
  "demo_page = ''<a href=http://a.b/p>p</a><a href=http://a.b/p>p</a>''
     @ replicate 201 (CHR ''y'') @ ''<script>'' @ replicate 300 (CHR ''-'') @ ''</script>''"

definition demo_web :: web where
  "demo_web = \<lparr>
     get_driver = Inr (),
     page_source = (\<lambda>url. Inr demo_page),
     soup_body = (\<lambda>html. html),
     soup_text = (\<lambda>body. ''p'' @ [LF] @ ''p'' @ [LF] @ replicate 201 (CHR ''y'')),
     soup_hrefs = (\<lambda>html. [''http://a.b/p'', ''http://a.b/p'']),
     urljoin = (\<lambda>base href. Inr href),
     urlparse_netloc = (\<lambda>url. Inr (takeWhile (\<lambda>c. c \<notin> set ''/?#'') (drop 7 url))),
     urlparse_path = (\<lambda>url. Inr (takeWhile (\<lambda>c. c \<notin> set ''?#'')
                                  (dropWhile (\<lambda>c. c \<notin> set ''/?#'') (drop 7 url))))\<rparr>"

section \<open>Link normalization is idempotent\<close>

lemma set_rstrip_chr: "set (rstrip_chr c s) \<subseteq> set s"
  unfolding rstrip_chr_def using set_dropWhileD by fastforce

lemma hash_notin_split_first: "c \<notin> set (split_first c s)"
  unfolding split_first_def by (induction s) auto

lemma split_first_id: "c \<notin> set s \<Longrightarrow> split_first c s = s"
  unfolding split_first_def by (induction s) auto

lemma rstrip_chr_idem: "rstrip_chr c (rstrip_chr c s) = rstrip_chr c s"
proof -
  have "dropWhile (\<lambda>x. x = c) (dropWhile (\<lambda>x. x = c) (rev s)) = dropWhile (\<lambda>x. x = c) (rev s)"
    by (rule dropWhile_idem)
  then show ?thesis by (simp add: rstrip_chr_def)
qed

lemma hash_notin_normalize_link: "CHR ''#'' \<notin> set (normalize_link u)"
  unfolding normalize_link_def
  using set_rstrip_chr hash_notin_split_first by fastforce

text \<open>
  C9: link normalization (cut at the first \<open>#\<close>, then strip trailing \<open>/\<close>) is
  idempotent: normalizing a normalized URL gives the same string.
\<close>

theorem normalize_link_idempotent:
  "normalize_link (normalize_link u) = normalize_link u"
proof -
  have "split_first (CHR ''#'') (normalize_link u) = normalize_link u"
    by (rule split_first_id) (rule hash_notin_normalize_link)
  then show ?thesis
    by (simp add: normalize_link_def rstrip_chr_idem)
qed

section \<open>The chunker: window ends, chunk lengths and termination\<close>

lemma rfind_range_bounds:
  "rfind_range c s a b = - 1 \<or> (int a \<le> rfind_range c s a b \<and> rfind_range c s a b < int b)"
  by (induction b) auto

lemma rfind_range_hit:
  "rfind_range c s a b \<noteq> - 1 \<Longrightarrow> s ! nat (rfind_range c s a b) = c"
  by (induction b) (auto split: if_splits)

lemma rfind_range_last:
  "rfind_range c s a b < int j \<Longrightarrow> a \<le> j \<Longrightarrow> j < b \<Longrightarrow> s ! j \<noteq> c"
  by (induction b) (auto split: if_splits simp: less_Suc_eq)

lemma py_index_in_range: "0 \<le> i \<Longrightarrow> i \<le> int n \<Longrightarrow> py_index n i = nat i"
  by (simp add: py_index_def)

lemma window_end_bounds:
  assumes "0 \<le> start" "start < int (length t)" "0 \<le> ml"
  shows "start \<le> window_end t ml start \<and> window_end t ml start \<le> start + ml
         \<and> window_end t ml start \<le> int (length t)"
proof -
  let ?n = "int (length t)"
  let ?e = "min (start + ml) ?n"
  let ?r = "py_rfind (LF) t start ?e"
  have e: "start \<le> ?e" "?e \<le> ?n" "0 \<le> ?e" using assms by auto
  have r: "?r = - 1 \<or> (start \<le> ?r \<and> ?r < ?e)"
    using rfind_range_bounds[of "LF" t "nat start" "nat ?e"] assms e
    by (simp add: py_rfind_def py_index_in_range)
  have half: "0 \<le> ml div 2" using assms by simp
  show ?thesis
    using r e half assms unfolding window_end_def Let_def by auto
qed

lemma py_slice_length:
  assumes "0 \<le> a" "a \<le> b" "b \<le> int (length s)"
  shows "int (length (py_slice s a b)) = b - a"
  using assms by (simp add: py_slice_def py_index_in_range Let_def)



lemma py_index_le: "py_index n i \<le> n"
  unfolding py_index_def by (cases "i < 0") auto

lemma split_loop_chunk_bound:
  assumes "split_loop t ml ov start chunks = Some res"
    and "0 \<le> ml" and "0 \<le> start"
    and "\<forall>c\<in>set chunks. int (length c) \<le> ml"
  shows "\<forall>c\<in>set res. int (length c) \<le> ml"
proof -
  have "0 \<le> ml \<longrightarrow> 0 \<le> start \<longrightarrow> (\<forall>c\<in>set chunks. int (length c) \<le> ml)
       \<longrightarrow> (\<forall>c\<in>set res. int (length c) \<le> ml)"
  proof (rule split_loop.raw_induct[OF _ assms(1)], intro impI)
    fix f :: "string \<Rightarrow> int \<Rightarrow> int \<Rightarrow> int \<Rightarrow> string list \<Rightarrow> string list option"
    fix t ml ov start chunks res
    assume IH: "\<And>t ml ov start chunks res. f t ml ov start chunks = Some res \<Longrightarrow>
        0 \<le> ml \<longrightarrow> 0 \<le> start \<longrightarrow> (\<forall>c\<in>set chunks. int (length c) \<le> ml)
          \<longrightarrow> (\<forall>c\<in>set res. int (length c) \<le> ml)"
    assume body: "(let n = int (length t) in
      if start < n then
        (let end' = window_end t ml start;
             chunks' = chunks @ [py_slice t start end']
         in if end' < n
            then f t ml ov (max (end' - ov) (start + ml div 2)) chunks'
            else Some chunks')
      else Some chunks) = Some res"
    assume ml: "0 \<le> ml" and start: "0 \<le> start"
      and chunks: "\<forall>c\<in>set chunks. int (length c) \<le> ml"
    show "\<forall>c\<in>set res. int (length c) \<le> ml"
    proof (cases "start < int (length t)")
      case False
      with body chunks show ?thesis by simp
    next
      case True
      let ?e = "window_end t ml start"
      let ?chunks' = "chunks @ [py_slice t start ?e]"
      have wb: "start \<le> ?e" "?e \<le> start + ml" "?e \<le> int (length t)"
        using window_end_bounds[of start t ml] True ml start by auto
      have len: "int (length (py_slice t start ?e)) \<le> ml"
        using py_slice_length[of start ?e t] wb start by simp
      have inv: "\<forall>c\<in>set ?chunks'. int (length c) \<le> ml"
        using len chunks by simp
      show ?thesis
      proof (cases "?e < int (length t)")
        case False
        with True body have "res = ?chunks'" by (simp add: Let_def)
        with inv show ?thesis by blast
      next
        case e: True
        let ?start' = "max (?e - ov) (start + ml div 2)"
        from True e body have call: "f t ml ov ?start' ?chunks' = Some res"
          by (simp add: Let_def)
        have "0 \<le> ?start'" using ml start by simp
        with IH[OF call] ml inv show ?thesis by blast
      qed
    qed
  qed
  with assms show ?thesis by blast
qed

lemma window_end_unit:
  assumes "0 \<le> start" "start + 1 < int (length t)"
  shows "window_end t 1 start = start + 1"
proof -
  have "rfind_range (LF) t (nat start) (Suc (nat start)) \<le> start"
    using assms rfind_range_bounds[of "LF" t "nat start" "Suc (nat start)"] by auto
  moreover have "py_index (length t) (start + 1) = Suc (nat start)"
    using assms by (simp add: py_index_in_range nat_add_distrib)
  moreover have "py_index (length t) start = nat start"
    using assms by (simp add: py_index_in_range)
  ultimately show ?thesis
    using assms by (simp add: window_end_def py_rfind_def Let_def)
qed

lemma split_loop_Some_not_stuck:
  assumes r: "split_loop t ml ov start chunks = Some res"
  shows "\<not> (ml = 1 \<and> 1 \<le> ov \<and> 0 \<le> start \<and> start + 1 < int (length t))"
proof (rule split_loop.raw_induct[OF _ r])
  fix f :: "string \<Rightarrow> int \<Rightarrow> int \<Rightarrow> int \<Rightarrow> string list \<Rightarrow> string list option"
  fix t ml ov start chunks res
  assume IH: "\<And>t ml ov start chunks res. f t ml ov start chunks = Some res \<Longrightarrow>
      \<not> (ml = 1 \<and> 1 \<le> ov \<and> 0 \<le> start \<and> start + 1 < int (length t))"
  assume body: "(let n = int (length t) in
    if start < n then
      (let end' = window_end t ml start;
           chunks' = chunks @ [py_slice t start end']
       in if end' < n
          then f t ml ov (max (end' - ov) (start + ml div 2)) chunks'
          else Some chunks')
    else Some chunks) = Some res"
  show "\<not> (ml = 1 \<and> 1 \<le> ov \<and> 0 \<le> start \<and> start + 1 < int (length t))"
  proof
    assume a: "ml = 1 \<and> 1 \<le> ov \<and> 0 \<le> start \<and> start + 1 < int (length t)"
    then have we: "window_end t ml start = start + 1"
      using window_end_unit by simp
    have "max (start + 1 - ov) (start + 1 div 2) = start" using a by simp
    with body a we
    have "f t ml ov start (chunks @ [py_slice t start (start + 1)]) = Some res"
      by (simp add: Let_def)
    from IH[OF this] a show False by simp
  qed
qed

lemma split_loop_diverges:
  assumes "1 \<le> ov" "0 \<le> start" "start + 1 < int (length t)"
  shows "split_loop t 1 ov start chunks = None"
proof (cases "split_loop t 1 ov start chunks")
  case None
  then show ?thesis .
next
  case (Some res)
  from split_loop_Some_not_stuck[OF this] assms show ?thesis by simp
qed

text \<open>
  C2: the claim is that \<open>split_dom_content\<close> returns for every \<open>max_length \<ge> 1\<close> and
  \<open>overlap \<ge> 0\<close>. With \<open>max_length = 1\<close> the clamp \<open>start + max_length // 2\<close> is
  \<open>start\<close> itself, so with \<open>overlap \<ge> 1\<close> the start offset never moves: on the text
  \<open>ab\<close> with \<open>max_length = 1\<close> and \<open>overlap = 1\<close> the loop never returns.
\<close>

theorem split_dom_content_diverges: "split_dom_content ''ab'' 1 1 = None"
  using split_loop_diverges[of 1 0 "''ab''" "[]"]
  by (simp add: split_dom_content_def strip_def py_isspace_def)

lemma split_loop_returns:
  assumes "2 \<le> ml"
  shows "\<exists>res. split_loop t ml ov start chunks = Some res"
proof (induction "nat (int (length t) - start)" arbitrary: start chunks rule: less_induct)
  case less
  show ?case
  proof (cases "start < int (length t)")
    case False
    then show ?thesis by (subst split_loop.simps) simp
  next
    case True
    let ?e = "window_end t ml start"
    let ?chunks' = "chunks @ [py_slice t start ?e]"
    show ?thesis
    proof (cases "?e < int (length t)")
      case False
      with True show ?thesis by (subst split_loop.simps) (simp add: Let_def)
    next
      case e: True
      let ?start' = "max (?e - ov) (start + ml div 2)"
      have "start < ?start'" using assms by simp
      then have "nat (int (length t) - ?start') < nat (int (length t) - start)"
        using True by simp
      from less[OF this] obtain res where "split_loop t ml ov ?start' ?chunks' = Some res"
        by blast
      with True e show ?thesis by (subst split_loop.simps) (simp add: Let_def)
    qed
  qed
qed


lemma rfind_range_eq:
  "a \<le> p \<Longrightarrow> p < b \<Longrightarrow> s ! p = c \<Longrightarrow> (\<forall>j. p < j \<and> j < b \<longrightarrow> s ! j \<noteq> c)
     \<Longrightarrow> rfind_range c s a b = int p"
proof (induction b)
  case 0
  then show ?case by simp
next
  case (Suc b)
  show ?case
  proof (cases "p = b")
    case True
    with Suc.prems show ?thesis by simp
  next
    case False
    with Suc.prems have "p < b" by simp
    moreover have "s ! b \<noteq> c" using Suc.prems \<open>p < b\<close> by simp
    moreover have "\<not> b < a" using Suc.prems \<open>p < b\<close> by simp
    ultimately show ?thesis using Suc by simp
  qed
qed

lemma rfind_range_none:
  "(\<forall>j. m < j \<and> j < b \<longrightarrow> s ! j \<noteq> c) \<Longrightarrow> rfind_range c s a b \<le> int m"
proof (induction b)
  case 0
  then show ?case by simp
next
  case (Suc b)
  then show ?case by (cases "m < b") auto
qed

text \<open>
  C7, as amended: when the window's end \<open>start + max_length\<close> lies before the end of the
  text, the boundary is pulled back to the nearest preceding newline if that newline lies
  strictly after the midpoint \<open>start + max_length // 2\<close>; when the window has no newline
  strictly after the midpoint (none at all, or the nearest one at or before the midpoint),
  the window keeps its full length.
\<close>

theorem window_end_newline_backoff:
  assumes "0 \<le> start" and "0 \<le> max_length"
    and "start + max_length < int (length dom_content)"
  shows "(start + max_length div 2 < int p \<and> int p < start + max_length
            \<and> dom_content ! p = LF
            \<and> (\<forall>j. p < j \<and> int j < start + max_length \<longrightarrow> dom_content ! j \<noteq> LF)
          \<longrightarrow> window_end dom_content max_length start = int p)
       \<and> ((\<forall>j. start + max_length div 2 < int j \<and> int j < start + max_length
                 \<longrightarrow> dom_content ! j \<noteq> LF)
          \<longrightarrow> window_end dom_content max_length start = start + max_length)"
proof (intro conjI impI)
  let ?n = "int (length dom_content)"
  let ?e = "start + max_length"
  have idx: "py_index (length dom_content) start = nat start"
    "py_index (length dom_content) ?e = nat ?e"
    using assms by (simp_all add: py_index_in_range)
  have we: "window_end dom_content max_length start =
      (let r = rfind_range LF dom_content (nat start) (nat ?e)
       in if r > start + max_length div 2 then r else ?e)"
    using assms by (simp add: window_end_def py_rfind_def idx Let_def)
  {
    assume h: "start + max_length div 2 < int p \<and> int p < start + max_length
            \<and> dom_content ! p = LF
            \<and> (\<forall>j. p < j \<and> int j < start + max_length \<longrightarrow> dom_content ! j \<noteq> LF)"
    have "nat start \<le> p" using h assms by linarith
    moreover have "p < nat ?e" using h by linarith
    moreover have "\<forall>j. p < j \<and> j < nat ?e \<longrightarrow> dom_content ! j \<noteq> LF"
      using h by auto
    ultimately have "rfind_range LF dom_content (nat start) (nat ?e) = int p"
      using h rfind_range_eq by blast
    with h show "window_end dom_content max_length start = int p"
      by (simp add: we)
  }
  {
    assume h: "\<forall>j. start + max_length div 2 < int j \<and> int j < start + max_length
                 \<longrightarrow> dom_content ! j \<noteq> LF"
    have mid: "0 \<le> start + max_length div 2" using assms by simp
    have "\<forall>j. nat (start + max_length div 2) < j \<and> j < nat ?e \<longrightarrow> dom_content ! j \<noteq> LF"
    proof (intro allI impI)
      fix j
      assume "nat (start + max_length div 2) < j \<and> j < nat ?e"
      then have "start + max_length div 2 < int j \<and> int j < start + max_length"
        using mid by linarith
      with h show "dom_content ! j \<noteq> LF" by blast
    qed
    then have "rfind_range LF dom_content (nat start) (nat ?e)
        \<le> int (nat (start + max_length div 2))"
      by (rule rfind_range_none)
    with mid show "window_end dom_content max_length start = start + max_length"
      by (simp add: we)
  }
qed

text \<open>
  The two cases of C7 on concrete text: a newline at index 3 of a window of 4 is used, and
  a window without newline keeps its end.
\<close>

theorem window_end_newline_backoff_witness:
  "window_end ''abc\<newline>defgh'' 4 0 = 3 \<and> window_end ''abcdefghi'' 4 0 = 4"
  using window_end_newline_backoff[of 0 4 "''abc\<newline>defgh''" 3]
    window_end_newline_backoff[of 0 4 "''abcdefghi''" 0]
  by (simp add: nth_Cons' less_Suc_eq)

text \<open>
  C7 as stated fails: in \<open>ab\<newline>cdefgh\<close> with \<open>max_length = 4\<close> the nearest newline before the
  window's end lies exactly at the midpoint 2, and the window still ends at 4, so the first
  chunk keeps the newline inside it.
\<close>

theorem window_end_midpoint_newline_counterexample:
  "py_rfind LF ''ab\<newline>cdefgh'' 0 (0 + 4) = 0 + 4 div 2
   \<and> window_end ''ab\<newline>cdefgh'' 4 0 = 0 + 4
   \<and> split_dom_content ''ab\<newline>cdefgh'' 4 1 = Some [''ab\<newline>c'', ''cdef'', ''fgh'']"
  by code_simp

lemma if_split_eq_disj: "(if c then a else b) = a \<or> (if c then a else b) = b"
  by simp

lemma window_end_below:
  assumes "max_length < 0" and "start < int (length t)"
  shows "window_end t max_length start < int (length t)"
proof -
  let ?n = "int (length t)"
  let ?e = "min (start + max_length) ?n"
  let ?r = "py_rfind LF t start ?e"
  have e: "?e < ?n" using assms by simp
  have "?r = - 1 \<or> ?r < int (py_index (length t) ?e)"
    using rfind_range_bounds[of LF t "py_index (length t) start" "py_index (length t) ?e"]
    by (auto simp: py_rfind_def)
  moreover have "int (py_index (length t) ?e) \<le> ?n"
    using py_index_le[of "length t" ?e] by simp
  moreover have "0 \<le> ?n" by simp
  ultimately have r: "?r < ?n" using e assms(2) by linarith
  have "window_end t max_length start = ?r \<or> window_end t max_length start = ?e"
    unfolding window_end_def Let_def by (simp only: e if_True) (rule if_split_eq_disj)
  with r e show ?thesis by auto
qed

lemma split_loop_Some_not_negative:
  assumes r: "split_loop t ml ov start chunks = Some res"
  shows "\<not> (ml < 0 \<and> 0 \<le> ov \<and> start < int (length t))"
proof (rule split_loop.raw_induct[OF _ r])
  fix f :: "string \<Rightarrow> int \<Rightarrow> int \<Rightarrow> int \<Rightarrow> string list \<Rightarrow> string list option"
  fix t ml ov start chunks res
  assume IH: "\<And>t ml ov start chunks res. f t ml ov start chunks = Some res \<Longrightarrow>
      \<not> (ml < 0 \<and> 0 \<le> ov \<and> start < int (length t))"
  assume body: "(let n = int (length t) in
    if start < n then
      (let end' = window_end t ml start;
           chunks' = chunks @ [py_slice t start end']
       in if end' < n
          then f t ml ov (max (end' - ov) (start + ml div 2)) chunks'
          else Some chunks')
    else Some chunks) = Some res"
  show "\<not> (ml < 0 \<and> 0 \<le> ov \<and> start < int (length t))"
  proof
    assume a: "ml < 0 \<and> 0 \<le> ov \<and> start < int (length t)"
    let ?e = "window_end t ml start"
    let ?start' = "max (?e - ov) (start + ml div 2)"
    from a have e: "?e < int (length t)" using window_end_below by simp
    with body a
    have call: "f t ml ov ?start' (chunks @ [py_slice t start ?e]) = Some res"
      by (simp add: Let_def)
    have half: "ml div 2 < 0" using a by simp
    have "?e - ov < int (length t)" using a e by linarith
    moreover have "start + ml div 2 < int (length t)" using a half by linarith
    ultimately have "?start' < int (length t)" by (simp only: max_less_iff_conj)
    with IH[OF call] a show False by simp
  qed
qed

text \<open>
  C8: for every text, and every \<open>max_length\<close> and \<open>overlap\<close> of which at least one is
  not negative, each chunk that \<open>split_dom_content\<close> returns has length at most
  \<open>max_length\<close>: the newline back-off only shortens a chunk. The call does return when
  \<open>max_length \<ge> 2\<close>, and when \<open>max_length = 1\<close> with an overlap that is not positive.
\<close>

theorem chunk_length_bound:
  assumes "0 \<le> max_length \<or> 0 \<le> overlap"
  shows "(\<forall>chunks. split_dom_content dom_content max_length overlap = Some chunks
            \<longrightarrow> (\<forall>c\<in>set chunks. int (length c) \<le> max_length))
       \<and> (2 \<le> max_length \<or> (max_length = 1 \<and> overlap \<le> 0)
            \<longrightarrow> (\<exists>chunks. split_dom_content dom_content max_length overlap = Some chunks))"
proof (intro conjI allI impI)
  fix chunks
  assume run: "split_dom_content dom_content max_length overlap = Some chunks"
  show "\<forall>c\<in>set chunks. int (length c) \<le> max_length"
  proof (cases "dom_content = [] \<or> int (length (strip dom_content)) \<le> max_length")
    case True
    with run show ?thesis
      by (auto simp: split_dom_content_def Let_def split: if_splits)
  next
    case False
    with run have loop: "split_loop (strip dom_content) max_length overlap 0 [] = Some chunks"
      by (simp add: split_dom_content_def Let_def)
    show ?thesis
    proof (cases "0 \<le> max_length")
      case True
      from split_loop_chunk_bound[OF loop True] show ?thesis by simp
    next
      case neg: False
      with assms have ov: "0 \<le> overlap" by simp
      from split_loop_Some_not_negative[OF loop] neg ov
      have "strip dom_content = []" by simp
      with loop have "chunks = []"
        by (subst (asm) split_loop.simps) simp
      then show ?thesis by simp
    qed
  qed
next
  assume dom: "2 \<le> max_length \<or> (max_length = 1 \<and> overlap \<le> 0)"
  have "\<exists>res. split_loop t max_length overlap start acc = Some res" if "0 \<le> start"
    for t start acc
    using that
  proof (induction "nat (int (length t) - start)" arbitrary: start acc rule: less_induct)
    case less
    show ?case
    proof (cases "start < int (length t)")
      case False
      then show ?thesis by (subst split_loop.simps) simp
    next
      case True
      let ?e = "window_end t max_length start"
      let ?acc' = "acc @ [py_slice t start ?e]"
      show ?thesis
      proof (cases "?e < int (length t)")
        case False
        with True show ?thesis by (subst split_loop.simps) (simp add: Let_def)
      next
        case e: True
        let ?start' = "max (?e - overlap) (start + max_length div 2)"
        have adv: "start < ?start'"
        proof (cases "2 \<le> max_length")
          case True
          then show ?thesis by simp
        next
          case False
          with dom have unit: "max_length = 1" "overlap \<le> 0" by simp_all
          have "start + 1 < int (length t)"
          proof (rule ccontr)
            assume "\<not> start + 1 < int (length t)"
            with True unit have "?e = int (length t)"
              by (simp add: window_end_def Let_def)
            with e show False by simp
          qed
          with less.prems unit have "?e = start + 1"
            using window_end_unit by simp
          with unit show ?thesis by simp
        qed
        then have "nat (int (length t) - ?start') < nat (int (length t) - start)"
          using True by simp
        moreover have "0 \<le> ?start'" using adv less.prems by simp
        ultimately obtain res where "split_loop t max_length overlap ?start' ?acc' = Some res"
          using less.hyps by blast
        with True e show ?thesis by (subst split_loop.simps) (simp add: Let_def)
      qed
    qed
  qed
  then show "\<exists>chunks. split_dom_content dom_content max_length overlap = Some chunks"
    by (simp add: split_dom_content_def Let_def)
qed

text \<open>
  The bound of C8 on a run with a newline back-off.
\<close>

theorem chunk_length_bound_witness:
  "split_dom_content ''abc\<newline>defgh'' 4 1 = Some [''abc'', ''c\<newline>de'', ''efgh'']
   \<and> list_all (\<lambda>c. int (length c) \<le> 4) [''abc'', ''c\<newline>de'', ''efgh'']"
proof -
  have run: "split_dom_content ''abc\<newline>defgh'' 4 1 = Some [''abc'', ''c\<newline>de'', ''efgh'']"
    by code_simp
  have "(0::int) \<le> 4 \<or> (0::int) \<le> 1" by simp
  from chunk_length_bound[OF this, of "''abc\<newline>defgh''"] run show ?thesis by simp
qed

text \<open>
  With \<open>max_length\<close> and \<open>overlap\<close> both negative the bound stops: the window end
  \<open>-1\<close> counts from the end of the text, and the chunk \<open>ab\<close> is longer than \<open>-1\<close>.
\<close>

lemma chunk_length_both_negative:
  "split_dom_content ''abc'' (- 1) (- 10) = Some [''ab'']
   \<and> \<not> int (length ''ab'') \<le> - 1"
  by code_simp

text \<open>
  From \<open>max_length = 2\<close> on the start offset advances in every iteration, and the call
  returns whatever the overlap.
\<close>

lemma split_dom_content_returns:
  assumes "2 \<le> max_length"
  shows "\<exists>chunks. split_dom_content dom_content max_length overlap = Some chunks"
  using split_loop_returns[OF assms] by (simp add: split_dom_content_def Let_def)

section \<open>The crawl scheduler: enqueueing, the queue, the budget and the keys\<close>

lemma enqueue_links_appends:
  "\<exists>new. snd (enqueue_links W same_domain domain vs current hrefs frontier) = frontier @ new
     \<and> (\<forall>u\<in>set new. u |\<notin>| vs)"
proof (induction hrefs arbitrary: frontier)
  case Nil
  then show ?case by simp
next
  case (Cons href hrefs)
  let ?goal = "\<lambda>r. \<exists>new. snd r = frontier @ new \<and> (\<forall>u\<in>set new. u |\<notin>| vs)"
  let ?call = "enqueue_links W same_domain domain vs current (href # hrefs) frontier"
  let ?rest = "\<lambda>q. enqueue_links W same_domain domain vs current hrefs q"
  have skip: "?goal (?rest frontier)"
    by (rule Cons.IH)
  have stop: "?goal (Some e, frontier)" for e :: py_error
    by simp
  show ?case
  proof (cases "urljoin W current href")
    case (Inl e)
    then have "?call = (Some e, frontier)" by simp
    with stop show ?thesis by simp
  next
    case (Inr joined)
    let ?full = "normalize_link joined"
    have add: "?goal (?rest (frontier @ [?full]))" if "?full |\<notin>| vs"
    proof -
      from Cons.IH[of "frontier @ [?full]"] obtain new where
        "snd (?rest (frontier @ [?full])) = (frontier @ [?full]) @ new" "\<forall>u\<in>set new. u |\<notin>| vs"
        by blast
      with that have "snd (?rest (frontier @ [?full])) = frontier @ (?full # new)
          \<and> (\<forall>u\<in>set (?full # new). u |\<notin>| vs)"
        by simp
      then show ?thesis by blast
    qed
    have "?call = ?rest frontier \<or> (\<exists>e. ?call = (Some e, frontier))
        \<or> (?full |\<notin>| vs \<and> ?call = ?rest (frontier @ [?full]))"
      using Inr by (simp add: Let_def split: sum.splits)
    with skip stop add show ?thesis by metis
  qed
qed

text \<open>
  With same-domain scoping disabled the link loop never appends anything: the test of
  line 208 starts with \<open>same_domain and\<close>.
\<close>

lemma enqueue_links_unscoped_adds_nothing:
  "snd (enqueue_links W False domain vs current hrefs frontier) = frontier"
  by (induction hrefs) (simp_all add: Let_def split: sum.splits)

text \<open>
  C1: the claim is that with \<open>same_domain = False\<close> every discovered link that passes the
  URL filter and is not visited is enqueued. On a page that links to \<open>http://a.b/p\<close>,
  a URL the filter accepts and that is not visited, the iteration leaves the queue empty.
\<close>

theorem unscoped_crawl_drops_valid_link:
  "is_valid_url demo_web ''http://a.b/p'' = Inr True
   \<and> ''http://a.b/p'' |\<notin>| visited (snd (crawl_step demo_web False ''a.b'' (crawl_init ''http://a.b'')))
   \<and> queue (snd (crawl_step demo_web False ''a.b'' (crawl_init ''http://a.b''))) = []"
  by code_simp


lemma process_page_effect:
  assumes "process_page W same_domain domain current st = (err, st')"
  shows "visited st' = finsert current (visited st)
     \<and> (\<exists>new. queue st' = queue st @ new \<and> (\<forall>u\<in>set new. u |\<notin>| visited st'))"
proof (cases "scrape_page W current = [] \<or> length (scrape_page W current) < 500")
  case True
  with assms have "st' = st\<lparr>visited := finsert current (visited st)\<rparr>"
    by (auto simp: process_page_def Let_def)
  then show ?thesis by simp
next
  case False
  let ?html = "scrape_page W current"
  let ?vs = "finsert current (visited st)"
  let ?r = "enqueue_links W same_domain domain ?vs current (soup_hrefs W ?html) (queue st)"
  from False assms have "visited st' = ?vs \<and> queue st' = snd ?r"
    by (auto simp: process_page_def Let_def split: prod.splits if_splits)
  with enqueue_links_appends[of W same_domain domain ?vs current "soup_hrefs W ?html" "queue st"]
  show ?thesis by auto
qed

lemma crawl_step_cases:
  assumes "queue st = current # rest"
  shows "crawl_step W same_domain domain st = (None, st\<lparr>queue := rest\<rparr>)
     \<or> (\<exists>e. crawl_step W same_domain domain st = (Some e, st\<lparr>queue := rest\<rparr>))
     \<or> (current |\<notin>| visited st \<and> crawl_step W same_domain domain st
           = process_page W same_domain domain current (st\<lparr>queue := rest\<rparr>))"
  using assms by (simp add: crawl_step_def Let_def split: sum.splits)

text \<open>
  C3, as amended: in every iteration a dequeued URL that is already in the visited set is
  dropped without being fetched and without any other change of state, and every URL the
  iteration appends to the frontier queue is outside the visited set at that moment. The
  queue itself may hold an entry twice, and an entry that was visited after it was queued.
\<close>

theorem crawl_step_queue_discipline:
  assumes "queue st = current # rest"
    and "crawl_step W same_domain domain st = (err, st')"
  shows "(current |\<in>| visited st \<longrightarrow> err = None \<and> st' = st\<lparr>queue := rest\<rparr>)
     \<and> (\<exists>new. queue st' = rest @ new \<and> (\<forall>u\<in>set new. u |\<notin>| visited st'))"
proof -
  from crawl_step_cases[OF assms(1), of W same_domain domain] assms(2)
  consider (skip) "err = None" "st' = st\<lparr>queue := rest\<rparr>"
    | (raised) "st' = st\<lparr>queue := rest\<rparr>" "current |\<notin>| visited st"
    | (page) "current |\<notin>| visited st"
        "process_page W same_domain domain current (st\<lparr>queue := rest\<rparr>) = (err, st')"
    using assms(1) by (auto simp: crawl_step_def Let_def split: sum.splits if_splits)
  then show ?thesis
  proof cases
    case skip
    then show ?thesis by simp
  next
    case raised
    then show ?thesis by simp
  next
    case page
    from process_page_effect[OF page(2)] have
      "\<exists>new. queue st' = rest @ new \<and> (\<forall>u\<in>set new. u |\<notin>| visited st')"
      by (elim conjE) simp
    with page(1) show ?thesis by blast
  qed
qed

text \<open>
  The first iteration of a crawl of \<open>http://a.b\<close>: both links are appended, and the
  appended URL is not in the visited set.
\<close>

theorem crawl_step_queue_discipline_witness:
  "queue (snd (crawl_step demo_web True ''a.b'' (crawl_init ''http://a.b'')))
     = [''http://a.b/p'', ''http://a.b/p'']
   \<and> ''http://a.b/p'' |\<notin>| visited (snd (crawl_step demo_web True ''a.b'' (crawl_init ''http://a.b'')))"
proof -
  have run: "queue (snd (crawl_step demo_web True ''a.b'' (crawl_init ''http://a.b'')))
     = [''http://a.b/p'', ''http://a.b/p'']"
    by code_simp
  have "queue (crawl_init ''http://a.b'') = ''http://a.b'' # []"
    by (simp add: crawl_init_def)
  from crawl_step_queue_discipline[OF this, of demo_web True "''a.b''"
      "fst (crawl_step demo_web True ''a.b'' (crawl_init ''http://a.b''))"
      "snd (crawl_step demo_web True ''a.b'' (crawl_init ''http://a.b''))"]
  show ?thesis using run by auto
qed

text \<open>
  C3 as stated fails: on a page that links twice to \<open>http://a.b/p\<close> the first iteration
  leaves that URL twice in the queue, and after the next iteration the remaining copy is
  in the queue and in the visited set at once.
\<close>

theorem queue_duplicate_counterexample:
  "\<not> distinct (queue (snd (crawl_step demo_web True ''a.b'' (crawl_init ''http://a.b''))))
   \<and> list_ex (\<lambda>u. u |\<in>| visited (snd (crawl_step demo_web True ''a.b''
          (snd (crawl_step demo_web True ''a.b'' (crawl_init ''http://a.b''))))))
        (queue (snd (crawl_step demo_web True ''a.b''
          (snd (crawl_step demo_web True ''a.b'' (crawl_init ''http://a.b''))))))"
  by code_simp

lemma crawl_step_visited_grows:
  assumes "queue st \<noteq> []" and "crawl_step W same_domain domain st = (err, st')"
  shows "fcard (visited st') \<le> Suc (fcard (visited st))"
proof -
  from assms(1) obtain current rest where q: "queue st = current # rest"
    by (cases "queue st") auto
  from crawl_step_cases[OF q, of W same_domain domain] assms(2)
  have "visited st' = visited st \<or> visited st' = finsert current (visited st)"
    using process_page_effect[of W same_domain domain current "st\<lparr>queue := rest\<rparr>" err st']
    by auto
  then show ?thesis
    by (auto simp: fcard_finsert_if)
qed

lemma crawl_loop_budget:
  "int (fcard (visited st)) \<le> max_pages
    \<Longrightarrow> int (fcard (visited (crawl_loop W max_pages same_domain domain st))) \<le> max_pages"
proof (induction W max_pages same_domain domain st rule: crawl_loop.induct)
  case (1 W max_pages same_domain domain st)
  show ?case
  proof (cases "queue st \<noteq> [] \<and> int (fcard (visited st)) < max_pages")
    case False
    then have "crawl_loop W max_pages same_domain domain st = st"
      by (subst crawl_loop.simps) auto
    with "1.prems" show ?thesis by simp
  next
    case True
    obtain err st' where step: "crawl_step W same_domain domain st = (err, st')"
      by (cases "crawl_step W same_domain domain st") auto
    from True have unfold: "crawl_loop W max_pages same_domain domain st =
        (case crawl_step W same_domain domain st of
           (Some e, st') \<Rightarrow> st'
         | (None, st') \<Rightarrow> crawl_loop W max_pages same_domain domain st')"
      by (subst crawl_loop.simps) simp
    from True crawl_step_visited_grows[OF _ step]
    have le: "int (fcard (visited st')) \<le> max_pages" by simp
    show ?thesis
    proof (cases err)
      case None
      from "1.IH"[OF True step[symmetric] None le] step None show ?thesis
        by (simp add: unfold)
    next
      case (Some e)
      with step le show ?thesis by (simp add: unfold)
    qed
  qed
qed

text \<open>
  C4: for every start URL and every positive \<open>max_pages\<close>, when the crawl loop ends (the
  queue is empty, the budget is reached, or an exception left the loop), the visited set
  has at most \<open>max_pages\<close> elements.
\<close>

theorem crawl_budget_bound:
  assumes "0 < max_pages"
  shows "int (fcard (visited (crawl_loop W max_pages same_domain domain (crawl_init start_url))))
     \<le> max_pages"
proof -
  have "int (fcard (visited (crawl_init start_url))) \<le> max_pages"
    using assms by (simp add: crawl_init_def fcard_fempty)
  then show ?thesis by (rule crawl_loop_budget)
qed

text \<open>
  A crawl with a budget of one page visits the start URL and stops.
\<close>

theorem crawl_budget_bound_witness:
  "visited (crawl_loop demo_web 1 True ''a.b'' (crawl_init ''http://a.b'')) = {|''http://a.b''|}
   \<and> int (fcard (visited (crawl_loop demo_web 1 True ''a.b'' (crawl_init ''http://a.b'')))) \<le> 1"
proof -
  have run: "visited (crawl_loop demo_web 1 True ''a.b'' (crawl_init ''http://a.b''))
      = {|''http://a.b''|}"
    by code_simp
  have "(0::int) < 1" by simp
  from crawl_budget_bound[OF this, of demo_web True "''a.b''" "''http://a.b''"] run
  show ?thesis by simp
qed

text \<open>
  C5: the claim is that every key of the returned mapping is free of a fragment and of a
  trailing slash, the start URL included. The start URL is only stripped of trailing
  slashes (line 160); its fragment stays, while discovered links lose theirs (line 205).
  Started at \<open>http://a.b/p#x\<close>, the crawl returns a mapping with that very key.
\<close>

theorem start_url_fragment_kept:
  "(case scrape_website_recursive demo_web ''http://a.b/p#x'' 1 True of
      Inl e \<Rightarrow> None | Inr m \<Rightarrow> m ''http://a.b/p#x'') = Some (replicate 201 (CHR ''y''))
   \<and> CHR ''#'' \<in> set ''http://a.b/p#x''"
  by code_simp

section \<open>The content extractor: the lines of the cleaned text\<close>

lemma linebreak_CR: "py_islinebreak CR"
  by (simp add: py_islinebreak_def)

lemma linebreak_LF: "py_islinebreak LF"
  by (simp add: py_islinebreak_def)

lemma splitlines_acc_plain:
  "\<not> py_islinebreak c \<Longrightarrow> splitlines_acc acc (c # t) = splitlines_acc (acc @ [c]) t"
proof (cases t)
  case Nil
  assume "\<not> py_islinebreak c"
  with Nil show ?thesis by simp
next
  case (Cons d ds)
  assume nb: "\<not> py_islinebreak c"
  with linebreak_CR have "c \<noteq> CR" by blast
  with nb Cons show ?thesis by simp
qed

lemma splitlines_acc_newline: "splitlines_acc acc (LF # t) = acc # splitlines_acc [] t"
proof (cases t)
  case Nil
  with linebreak_LF show ?thesis by simp
next
  case (Cons d ds)
  with linebreak_LF show ?thesis by simp
qed


lemma splitlines_acc_line:
  "\<forall>c\<in>set s. \<not> py_islinebreak c \<Longrightarrow> splitlines_acc acc (s @ t) = splitlines_acc (acc @ s) t"
proof (induction s arbitrary: acc)
  case Nil
  then show ?case by simp
next
  case (Cons c s)
  then have "splitlines_acc acc ((c # s) @ t) = splitlines_acc (acc @ [c]) (s @ t)"
    by (simp add: splitlines_acc_plain)
  also have "\<dots> = splitlines_acc ((acc @ [c]) @ s) t"
    using Cons by simp
  finally show ?case by simp
qed

lemma splitlines_acc_no_linebreak:
  "\<forall>c\<in>set acc. \<not> py_islinebreak c
    \<Longrightarrow> \<forall>l\<in>set (splitlines_acc acc s). \<forall>c\<in>set l. \<not> py_islinebreak c"
proof (induction acc s rule: splitlines_acc.induct)
  case (1 line)
  then show ?case by simp
next
  case (2 line c)
  then show ?case by simp
next
  case (3 line c d cs)
  have empty: "\<forall>c\<in>set ([] :: string). \<not> py_islinebreak c" by simp
  show ?case
  proof (cases "c = CR \<and> d = LF")
    case True
    then have eq: "splitlines_acc line (c # d # cs) = line # splitlines_acc [] cs"
      by simp
    from "3.IH"(1)[OF True empty] "3.prems" show ?thesis
      unfolding eq by simp
  next
    case False
    show ?thesis
    proof (cases "py_islinebreak c")
      case True
      with False have eq: "splitlines_acc line (c # d # cs) = line # splitlines_acc [] (d # cs)"
        by auto
      from "3.IH"(2)[OF False True empty] "3.prems" show ?thesis
        unfolding eq by simp
    next
      case nb: False
      with False have eq: "splitlines_acc line (c # d # cs) = splitlines_acc (line @ [c]) (d # cs)"
        by auto
      have "\<forall>x\<in>set (line @ [c]). \<not> py_islinebreak x"
        using "3.prems" nb by simp
      from "3.IH"(3)[OF False nb this] show ?thesis
        unfolding eq .
    qed
  qed
qed

lemma splitlines_no_linebreak:
  "l \<in> set (splitlines s) \<Longrightarrow> c \<in> set l \<Longrightarrow> \<not> py_islinebreak c"
  using splitlines_acc_no_linebreak[of "[]" s] by (simp add: splitlines_def)

lemma set_strip: "set (strip s) \<subseteq> set s"
proof -
  have "set (strip s) \<subseteq> set (rev (dropWhile py_isspace (rev s)))"
    unfolding strip_def by (auto dest: set_dropWhileD)
  also have "\<dots> \<subseteq> set s" by (auto dest: set_dropWhileD)
  finally show ?thesis .
qed

lemma clean_lines_plain: "l \<in> set (clean_lines text) \<Longrightarrow> plain_line l \<and> 3 < length l"
  unfolding clean_lines_def plain_line_def Let_def
  using splitlines_no_linebreak set_strip by fastforce

lemma splitlines_join_newline:
  "\<forall>l\<in>set ls. plain_line l \<Longrightarrow> splitlines (join_newline ls) = ls"
proof (induction ls rule: join_newline.induct)
  case 1
  then show ?case by (simp add: splitlines_def)
next
  case (2 l)
  then have "splitlines_acc [] (l @ []) = splitlines_acc ([] @ l) []"
    by (intro splitlines_acc_line) (simp add: plain_line_def)
  with 2 show ?case by (simp add: splitlines_def plain_line_def)
next
  case (3 l m ls)
  then have "splitlines_acc [] (l @ LF # join_newline (m # ls))
      = splitlines_acc ([] @ l) (LF # join_newline (m # ls))"
    by (intro splitlines_acc_line) (simp add: plain_line_def)
  with 3 show ?case by (simp add: splitlines_def splitlines_acc_newline)
qed

lemma newline_run_line:
  "LF \<notin> set l \<Longrightarrow> newline_run 0 (l @ t) = l @ newline_run 0 t"
  by (induction l) auto

lemma newline_run_single:
  "t \<noteq> [] \<Longrightarrow> hd t \<noteq> LF \<Longrightarrow> newline_run (Suc 0) t = LF # newline_run 0 t"
  by (cases t) auto

lemma newline_run_end: "LF \<notin> set l \<Longrightarrow> newline_run 0 l = l"
  using newline_run_line[of l "[]"] by simp

lemma plain_line_no_LF: "plain_line l \<Longrightarrow> LF \<notin> set l"
proof
  assume "plain_line l" "LF \<in> set l"
  then have "\<not> py_islinebreak LF" unfolding plain_line_def by blast
  with linebreak_LF show False by blast
qed

lemma join_newline_head:
  "plain_line m \<Longrightarrow> join_newline (m # ls) \<noteq> [] \<and> hd (join_newline (m # ls)) = hd m"
  by (cases ls) (auto simp: plain_line_def)

lemma re_sub_newlines_join:
  "\<forall>l\<in>set ls. plain_line l \<Longrightarrow> re_sub_newlines (join_newline ls) = join_newline ls"
  unfolding re_sub_newlines_def
proof (induction ls rule: join_newline.induct)
  case 1
  then show ?case by simp
next
  case (2 l)
  then show ?case by (simp add: newline_run_end plain_line_no_LF)
next
  case (3 l m ls)
  have m: "plain_line m" using 3 by simp
  then have "hd m \<noteq> LF" using plain_line_no_LF[of m] by (cases m) (auto simp: plain_line_def)
  with join_newline_head[OF m, of ls]
  have "newline_run (Suc 0) (join_newline (m # ls)) = LF # newline_run 0 (join_newline (m # ls))"
    by (intro newline_run_single) auto
  moreover have "LF \<notin> set l" using 3 plain_line_no_LF by simp
  ultimately show ?case using 3 by (simp add: newline_run_line)
qed

text \<open>
  C10: for every markup, the lines of the text \<open>clean_body_content\<close> returns are exactly
  the kept lines; each is non-empty and longer than 3 characters, so the output has no
  blank line, and the final collapsing of three or more newlines leaves the joined lines
  as they are.
\<close>

theorem clean_body_content_lines:
  "splitlines (clean_body_content W body_content) = clean_lines (soup_text W body_content)
   \<and> (\<forall>l\<in>set (splitlines (clean_body_content W body_content)). l \<noteq> [] \<and> 3 < length l)
   \<and> re_sub_newlines (join_newline (clean_lines (soup_text W body_content)))
       = join_newline (clean_lines (soup_text W body_content))"
proof -
  let ?ls = "clean_lines (soup_text W body_content)"
  have plain: "\<forall>l\<in>set ?ls. plain_line l" using clean_lines_plain by blast
  have same: "re_sub_newlines (join_newline ?ls) = join_newline ?ls"
    using plain by (rule re_sub_newlines_join)
  then have out: "clean_body_content W body_content = join_newline ?ls"
    by (simp add: clean_body_content_def Let_def)
  have "splitlines (join_newline ?ls) = ?ls"
    using plain by (rule splitlines_join_newline)
  with out same clean_lines_plain show ?thesis by (auto simp: plain_line_def)
qed

text \<open>
  On the site's page the two one-character lines are dropped and the long line is kept.
\<close>

theorem clean_body_content_lines_witness:
  "soup_text demo_web demo_page = ''p'' @ [LF] @ ''p'' @ [LF] @ replicate 201 (CHR ''y'')
   \<and> splitlines (clean_body_content demo_web demo_page) = [replicate 201 (CHR ''y'')]
   \<and> list_all (\<lambda>l. l \<noteq> [] \<and> 3 < length l) (splitlines (clean_body_content demo_web demo_page))"
proof -
  have "clean_lines (soup_text demo_web demo_page) = [replicate 201 (CHR ''y'')]"
    by code_simp
  with clean_body_content_lines[of demo_web demo_page] show ?thesis
    by (simp add: demo_web_def)
qed

section \<open>The URL filter: what the extension pattern matches\<close>

lemma py_lower_cases:
  "py_lower d = d \<or> (97 \<le> (of_char (py_lower d) :: nat))"
proof (cases "(65 \<le> (of_char d :: nat) \<and> (of_char d :: nat) \<le> 90)
     \<or> (192 \<le> (of_char d :: nat) \<and> (of_char d :: nat) \<le> 214)
     \<or> (216 \<le> (of_char d :: nat) \<and> (of_char d :: nat) \<le> 222)")
  case False
  then have "py_lower d = d" unfolding py_lower_def Let_def by (simp only: if_False)
  then show ?thesis by (rule disjI1)
next
  case True
  then have eq: "py_lower d = char_of ((of_char d :: nat) + 32)"
    unfolding py_lower_def Let_def by (simp only: if_True)
  have "(of_char (char_of ((of_char d :: nat) + 32) :: char) :: nat) = ((of_char d :: nat) + 32) mod 256"
    by (rule of_char_of)
  moreover have "97 \<le> ((of_char d :: nat) + 32) mod 256"
  proof -
    have "(of_char d :: nat) + 32 < 256" using True by linarith
    then have "((of_char d :: nat) + 32) mod 256 = (of_char d :: nat) + 32" by (rule mod_less)
    moreover have "97 \<le> (of_char d :: nat) + 32" using True by linarith
    ultimately show ?thesis by (simp only:)
  qed
  ultimately have "97 \<le> (of_char (py_lower d) :: nat)"
    unfolding eq by (simp only:)
  then show ?thesis by (rule disjI2)
qed


lemma py_lower_punct:
  assumes "(of_char p :: nat) < 97" and "py_lower p = p"
  shows "py_lower d = p \<longleftrightarrow> d = p"
proof
  assume a: "py_lower d = p"
  from py_lower_cases[of d] show "d = p"
  proof
    assume "py_lower d = d"
    with a show ?thesis by simp
  next
    assume "97 \<le> (of_char (py_lower d) :: nat)"
    with a assms(1) show ?thesis by simp
  qed
next
  assume "d = p"
  with assms(2) show "py_lower d = p" by simp
qed

lemma py_lower_dot: "py_lower d = CHR ''.'' \<longleftrightarrow> d = CHR ''.''"
proof (rule py_lower_punct)
  show "(of_char (CHR ''.'') :: nat) < 97" by simp
  show "py_lower (CHR ''.'') = CHR ''.''" by code_simp
qed

lemma py_lower_question: "py_lower d = CHR ''?'' \<longleftrightarrow> d = CHR ''?''"
proof (rule py_lower_punct)
  show "(of_char (CHR ''?'') :: nat) < 97" by simp
  show "py_lower (CHR ''?'') = CHR ''?''" by code_simp
qed

lemma rx_rests_word:
  "rx_rests (rx_word w) s =
     (if length w \<le> length s \<and> map py_lower (take (length w) s) = w
      then [drop (length w) s] else [])"
  unfolding rx_word_def
proof (induction w arbitrary: s)
  case Nil
  then show ?case by simp
next
  case (Cons c w)
  show ?case
  proof (cases s)
    case Nil
    then show ?thesis by simp
  next
    case (Cons d ds)
    show ?thesis
    proof (cases "py_lower d = c")
      case True
      with Cons Cons.IH[of ds] show ?thesis by simp
    next
      case False
      with Cons show ?thesis by simp
    qed
  qed
qed

lemma in_rx_rests_word:
  "rest \<in> set (rx_rests (rx_word w) s) \<longleftrightarrow> (\<exists>m. s = m @ rest \<and> map py_lower m = w)"
proof
  assume "rest \<in> set (rx_rests (rx_word w) s)"
  then have "length w \<le> length s" "map py_lower (take (length w) s) = w" "rest = drop (length w) s"
    by (auto simp: rx_rests_word split: if_splits)
  then have "s = take (length w) s @ rest \<and> map py_lower (take (length w) s) = w" by simp
  then show "\<exists>m. s = m @ rest \<and> map py_lower m = w" by blast
next
  assume "\<exists>m. s = m @ rest \<and> map py_lower m = w"
  then obtain m where m: "s = m @ rest" "map py_lower m = w" by blast
  then have "length w = length m" by auto
  with m show "rest \<in> set (rx_rests (rx_word w) s)"
    by (simp add: rx_rests_word)
qed


lemma in_rx_rests_Lit:
  "rest \<in> set (rx_rests (Lit p) s) \<longleftrightarrow> (\<exists>d. s = d # rest \<and> py_lower d = p)"
  by (cases s) auto

lemma in_rx_rests_Alt:
  "rest \<in> set (rx_rests (Alt rs) s) \<longleftrightarrow> (\<exists>r\<in>set rs. rest \<in> set (rx_rests r s))"
  by (induction rs) auto

lemma in_rx_rests_Cat_Nil: "rest \<in> set (rx_rests (Cat []) s) \<longleftrightarrow> rest = s"
  by auto

lemma in_rx_rests_Cat_Cons:
  "rest \<in> set (rx_rests (Cat (r # rs)) s)
     \<longleftrightarrow> (\<exists>mid. mid \<in> set (rx_rests r s) \<and> rest \<in> set (rx_rests (Cat rs) mid))"
  by auto

lemma in_rx_rests_Opt:
  "rest \<in> set (rx_rests (Opt r) s) \<longleftrightarrow> rest \<in> set (rx_rests r s) \<or> rest = s"
  by auto

lemma in_rx_rests_Eos:
  "rest \<in> set (rx_rests Eos s) \<longleftrightarrow> rest = s \<and> (s = [] \<or> s = [LF])"
  by auto

lemma in_rx_rests_word_Opt:
  "rest \<in> set (rx_rests (Cat [rx_word w, Opt (Lit x)]) s)
     \<longleftrightarrow> (\<exists>m. s = m @ rest \<and> (map py_lower m = w \<or> map py_lower m = w @ [x]))"
proof
  assume "rest \<in> set (rx_rests (Cat [rx_word w, Opt (Lit x)]) s)"
  then obtain mid where mid: "mid \<in> set (rx_rests (rx_word w) s)"
      and r: "rest \<in> set (rx_rests (Opt (Lit x)) mid)"
    unfolding in_rx_rests_Cat_Cons in_rx_rests_Cat_Nil by blast
  from mid obtain m where m: "s = m @ mid" "map py_lower m = w"
    unfolding in_rx_rests_word by blast
  from r have "(\<exists>d. mid = d # rest \<and> py_lower d = x) \<or> rest = mid"
    unfolding in_rx_rests_Opt in_rx_rests_Lit .
  then show "\<exists>m. s = m @ rest \<and> (map py_lower m = w \<or> map py_lower m = w @ [x])"
  proof
    assume "rest = mid"
    with m show ?thesis by blast
  next
    assume "\<exists>d. mid = d # rest \<and> py_lower d = x"
    then obtain d where "mid = d # rest" "py_lower d = x" by blast
    with m have "s = (m @ [d]) @ rest \<and> map py_lower (m @ [d]) = w @ [x]" by simp
    then show ?thesis by blast
  qed
next
  assume "\<exists>m. s = m @ rest \<and> (map py_lower m = w \<or> map py_lower m = w @ [x])"
  then obtain m where m: "s = m @ rest" "map py_lower m = w \<or> map py_lower m = w @ [x]"
    by blast
  from m(2) show "rest \<in> set (rx_rests (Cat [rx_word w, Opt (Lit x)]) s)"
  proof
    assume "map py_lower m = w"
    with m(1) have "rest \<in> set (rx_rests (rx_word w) s)"
      unfolding in_rx_rests_word by blast
    moreover have "rest \<in> set (rx_rests (Opt (Lit x)) rest)"
      unfolding in_rx_rests_Opt by simp
    ultimately show ?thesis
      unfolding in_rx_rests_Cat_Cons in_rx_rests_Cat_Nil by blast
  next
    assume mx: "map py_lower m = w @ [x]"
    then have "m \<noteq> []" by auto
    then obtain m' d where md: "m = m' @ [d]" by (metis rev_exhaust)
    with mx have w: "map py_lower m' = w" and d: "py_lower d = x" by auto
    from md m(1) have "s = m' @ (d # rest)" by simp
    with w have "d # rest \<in> set (rx_rests (rx_word w) s)"
      unfolding in_rx_rests_word by blast
    moreover from d have "rest \<in> set (rx_rests (Opt (Lit x)) (d # rest))"
      unfolding in_rx_rests_Opt in_rx_rests_Lit by simp
    ultimately show ?thesis
      unfolding in_rx_rests_Cat_Cons in_rx_rests_Cat_Nil by blast
  qed
qed

lemma re_search_iff:
  "re_search r url \<longleftrightarrow> (\<exists>pre s. url = pre @ s \<and> rx_rests r s \<noteq> [])"
proof (induction url)
  case Nil
  then show ?case by simp
next
  case (Cons c cs)
  show ?case
  proof
    assume "re_search r (c # cs)"
    then have "rx_rests r (c # cs) \<noteq> [] \<or> re_search r cs" by simp
    then show "\<exists>pre s. c # cs = pre @ s \<and> rx_rests r s \<noteq> []"
    proof
      assume "rx_rests r (c # cs) \<noteq> []"
      then have "c # cs = [] @ (c # cs) \<and> rx_rests r (c # cs) \<noteq> []" by simp
      then show ?thesis by blast
    next
      assume "re_search r cs"
      with Cons.IH obtain pre s where "cs = pre @ s" "rx_rests r s \<noteq> []" by blast
      then have "c # cs = (c # pre) @ s \<and> rx_rests r s \<noteq> []" by simp
      then show ?thesis by blast
    qed
  next
    assume "\<exists>pre s. c # cs = pre @ s \<and> rx_rests r s \<noteq> []"
    then obtain pre s where ps: "c # cs = pre @ s" "rx_rests r s \<noteq> []" by blast
    show "re_search r (c # cs)"
    proof (cases pre)
      case Nil
      with ps have "rx_rests r (c # cs) \<noteq> []" by simp
      then show ?thesis by simp
    next
      case (Cons p pre')
      with ps have "cs = pre' @ s" by simp
      with ps(2) Cons.IH have "re_search r cs" by blast
      then show ?thesis by simp
    qed
  qed
qed


lemma in_rx_rests_extensions:
  "rest \<in> set (rx_rests extension_alternatives s)
     \<longleftrightarrow> (\<exists>e. s = e @ rest \<and> map py_lower e \<in> set deny_listed_extensions)"
  unfolding extension_alternatives_def deny_listed_extensions_def in_rx_rests_Alt
  by (simp add: in_rx_rests_word in_rx_rests_word_Opt ex_disj_distrib conj_disj_distribL
        del: rx_rests.simps)


lemma skip_extensions_here:
  "rx_rests skip_extensions s \<noteq> [] \<longleftrightarrow>
     (\<exists>e rest. s = CHR ''.'' # e @ rest \<and> map py_lower e \<in> set deny_listed_extensions
        \<and> (rest = [] \<or> rest = [LF] \<or> (\<exists>r. rest = CHR ''?'' # r)))"
proof
  assume "rx_rests skip_extensions s \<noteq> []"
  then obtain x where "x \<in> set (rx_rests skip_extensions s)"
    by (cases "rx_rests skip_extensions s") auto
  then obtain m1 m2 where
    m1: "m1 \<in> set (rx_rests (Lit (CHR ''.'')) s)"
    and m2: "m2 \<in> set (rx_rests extension_alternatives m1)"
    and x: "x \<in> set (rx_rests (Alt [Eos, Lit (CHR ''?'')]) m2)"
    unfolding skip_extensions_def in_rx_rests_Cat_Cons in_rx_rests_Cat_Nil by blast
  from m1 have s: "s = CHR ''.'' # m1"
    unfolding in_rx_rests_Lit py_lower_dot by blast
  from m2 obtain e where e: "m1 = e @ m2" "map py_lower e \<in> set deny_listed_extensions"
    unfolding in_rx_rests_extensions by blast
  from x have "x \<in> set (rx_rests Eos m2) \<or> x \<in> set (rx_rests (Lit (CHR ''?'')) m2)"
    unfolding in_rx_rests_Alt by simp
  then have "m2 = [] \<or> m2 = [LF] \<or> (\<exists>r. m2 = CHR ''?'' # r)"
    unfolding in_rx_rests_Eos in_rx_rests_Lit py_lower_question by blast
  with s e show "\<exists>e rest. s = CHR ''.'' # e @ rest \<and> map py_lower e \<in> set deny_listed_extensions
        \<and> (rest = [] \<or> rest = [LF] \<or> (\<exists>r. rest = CHR ''?'' # r))"
    by blast
next
  assume "\<exists>e rest. s = CHR ''.'' # e @ rest \<and> map py_lower e \<in> set deny_listed_extensions
        \<and> (rest = [] \<or> rest = [LF] \<or> (\<exists>r. rest = CHR ''?'' # r))"
  then obtain e rest where s: "s = CHR ''.'' # e @ rest"
    and e: "map py_lower e \<in> set deny_listed_extensions"
    and rest: "rest = [] \<or> rest = [LF] \<or> (\<exists>r. rest = CHR ''?'' # r)"
    by blast
  have m1: "e @ rest \<in> set (rx_rests (Lit (CHR ''.'')) s)"
    unfolding in_rx_rests_Lit py_lower_dot using s by simp
  have m2: "rest \<in> set (rx_rests extension_alternatives (e @ rest))"
    unfolding in_rx_rests_extensions using e by blast
  from rest have "\<exists>x. x \<in> set (rx_rests Eos rest) \<or> x \<in> set (rx_rests (Lit (CHR ''?'')) rest)"
    unfolding in_rx_rests_Eos in_rx_rests_Lit py_lower_question by blast
  then obtain x where "x \<in> set (rx_rests (Alt [Eos, Lit (CHR ''?'')]) rest)"
    unfolding in_rx_rests_Alt by auto
  with m1 m2 have "x \<in> set (rx_rests skip_extensions s)"
    unfolding skip_extensions_def in_rx_rests_Cat_Cons in_rx_rests_Cat_Nil by blast
  then show "rx_rests skip_extensions s \<noteq> []" by auto
qed

text \<open>
  C6, as amended: \<open>is_valid_url\<close> rejects a URL on extension grounds exactly when
  somewhere in the whole URL string a dot and a deny-listed extension, matched without
  regard to case, are immediately followed by \<open>?\<close>, by the end of the string, or by a
  single final newline. Such a URL is rejected; any other URL gets the verdict of the
  remaining rules alone (not empty, starts with \<open>http\<close>, no sensitive segment in its
  path). An extension at the end of the query string therefore does cause rejection.
\<close>

theorem extension_rule_whole_url:
  "(re_search skip_extensions url \<longleftrightarrow> dot_extension_then_end url)
   \<and> (dot_extension_then_end url \<longrightarrow> is_valid_url W url = Inr False)
   \<and> (\<not> dot_extension_then_end url \<longrightarrow>
        is_valid_url W url =
          (if url = [] then Inr False
           else if \<not> prefix ''http'' url then Inr False
           else case urlparse_path W url of
                  Inl e \<Rightarrow> Inl e
                | Inr path \<Rightarrow>
                    if list_ex (\<lambda>p. py_in p (map py_lower path)) skip_paths then Inr False
                    else Inr True))"
proof -
  have pattern: "re_search skip_extensions url \<longleftrightarrow> dot_extension_then_end url"
    unfolding re_search_iff skip_extensions_here by blast
  have rejected: "is_valid_url W url = Inr False" if "re_search skip_extensions url"
    using that by (simp add: is_valid_url_def)
  have other: "is_valid_url W url =
          (if url = [] then Inr False
           else if \<not> prefix ''http'' url then Inr False
           else case urlparse_path W url of
                  Inl e \<Rightarrow> Inl e
                | Inr path \<Rightarrow>
                    if list_ex (\<lambda>p. py_in p (map py_lower path)) skip_paths then Inr False
                    else Inr True)" if "\<not> re_search skip_extensions url"
    using that by (simp add: is_valid_url_def)
  from pattern rejected other show ?thesis by blast
qed

text \<open>
  An upper-case extension before the query string is matched and the URL rejected; a URL
  that ends in \<open>.json\<close>, which is not on the list, is not matched and passes the filter.
\<close>

theorem extension_rule_whole_url_witness:
  "re_search skip_extensions ''http://x.com/a.PDF?x=1''
   \<and> is_valid_url demo_web ''http://x.com/a.PDF?x=1'' = Inr False
   \<and> \<not> re_search skip_extensions ''http://x.com/data.json''
   \<and> is_valid_url demo_web ''http://x.com/data.json'' = Inr True"
proof -
  have m: "re_search skip_extensions ''http://x.com/a.PDF?x=1''" by code_simp
  have n: "\<not> re_search skip_extensions ''http://x.com/data.json''" by code_simp
  have other: "(if ''http://x.com/data.json'' = [] then Inr False
           else if \<not> prefix ''http'' ''http://x.com/data.json'' then Inr False
           else case urlparse_path demo_web ''http://x.com/data.json'' of
                  Inl e \<Rightarrow> Inl e
                | Inr path \<Rightarrow>
                    if list_ex (\<lambda>p. py_in p (map py_lower path)) skip_paths then Inr False
                    else Inr True) = (Inr True :: py_error + bool)"
    by code_simp
  from extension_rule_whole_url[of "''http://x.com/a.PDF?x=1''" demo_web] m
  have a: "is_valid_url demo_web ''http://x.com/a.PDF?x=1'' = Inr False" by blast
  from extension_rule_whole_url[of "''http://x.com/data.json''" demo_web] n
  have "is_valid_url demo_web ''http://x.com/data.json'' =
          (if ''http://x.com/data.json'' = [] then Inr False
           else if \<not> prefix ''http'' ''http://x.com/data.json'' then Inr False
           else case urlparse_path demo_web ''http://x.com/data.json'' of
                  Inl e \<Rightarrow> Inl e
                | Inr path \<Rightarrow>
                    if list_ex (\<lambda>p. py_in p (map py_lower path)) skip_paths then Inr False
                    else Inr True)"
    by blast
  with other have b: "is_valid_url demo_web ''http://x.com/data.json'' = Inr True"
    by (simp only:)
  from m a n b show ?thesis by blast
qed

text \<open>
  C6 as stated fails: in \<open>http://x.com/page?file=a.pdf\<close> the path \<open>/page\<close> ends in no
  extension, the deny-listed \<open>.pdf\<close> occurs only in the query string, and the URL is
  rejected; without the \<open>.pdf\<close> it is accepted.
\<close>

theorem extension_in_query_counterexample:
  "\<not> path_ends_in_extension ''http://x.com/page?file=a.pdf''
   \<and> re_search skip_extensions ''http://x.com/page?file=a.pdf''
   \<and> is_valid_url demo_web ''http://x.com/page?file=a.pdf'' = Inr False
   \<and> is_valid_url demo_web ''http://x.com/page?file=a'' = Inr True"
  by code_simp

end
